theory Spec2Isabelle
  imports Complex_Main
begin


section \<open>Strings and numbers of the firmware\<close>

text \<open>
  The firmware (\<^verbatim>\<open>src/app_main.py\<close>) runs on MicroPython. Its \<^verbatim>\<open>str\<close> values are
  modelled as \<open>string\<close>, its unbounded integers as \<open>int\<close>, and its floats as exact
  rationals (\<open>rat\<close>): the values that occur are integers, differences of integers and
  quotients by 18, which the model keeps exact instead of rounding them to binary.
\<close>

definition is_ws :: "char \<Rightarrow> bool" where
  \<comment> \<open>membership in the literal \<^verbatim>\<open>" \t\r\n"\<close>\<close>
  "is_ws c = (c \<in> set [CHR '' '', CHR 0x09, CHR 0x0D, CHR 0x0A])"

definition isdigit :: "char \<Rightarrow> bool" where
  \<comment> \<open>\<^verbatim>\<open>str.isdigit\<close> on one character, and the class \<^verbatim>\<open>\d\<close> (ASCII digits)\<close>
  "isdigit c = (c \<in> set ''0123456789'')"

definition startswith :: "string \<Rightarrow> string \<Rightarrow> bool" where
  "startswith s p = (take (length p) s = p)"

text \<open>\<^verbatim>\<open>s.find(key, start)\<close>: the least index \<open>i \<ge> start\<close> at which \<open>key\<close> occurs.\<close>

fun find_at :: "string \<Rightarrow> string \<Rightarrow> nat \<Rightarrow> nat option" where
  "find_at key [] i = (if key = [] then Some i else None)"
| "find_at key (c # cs) i =
     (if startswith (c # cs) key then Some i else find_at key cs (Suc i))"

definition str_find :: "string \<Rightarrow> string \<Rightarrow> nat \<Rightarrow> nat option" where
  "str_find s key start =
     (if length s < start then None else find_at key (drop start s) start)"

definition str_in :: "string \<Rightarrow> string \<Rightarrow> bool" where
  \<comment> \<open>\<^verbatim>\<open>key in s\<close>\<close>
  "str_in key s = (str_find s key 0 \<noteq> None)"

text \<open>The index reached by \<^verbatim>\<open>while i < len(s) and p(s[i]): i += 1\<close>.\<close>

definition skip_while :: "(char \<Rightarrow> bool) \<Rightarrow> string \<Rightarrow> nat \<Rightarrow> nat" where
  "skip_while p s i = i + length (takeWhile p (drop i s))"

text \<open>\<^verbatim>\<open>int(t)\<close> on a text \<open>t\<close> made of an optional minus sign and decimal digits.\<close>

definition digit_val :: "char \<Rightarrow> nat" where
  "digit_val c = of_char c - 48"

definition digits_val :: "string \<Rightarrow> nat" where
  "digits_val ds = foldl (\<lambda>a c. 10 * a + digit_val c) 0 ds"

definition int_of_text :: "string \<Rightarrow> int" where
  "int_of_text t =
     (case t of
        [] \<Rightarrow> 0
      | c # cs \<Rightarrow> if c = CHR ''-'' then - int (digits_val cs) else int (digits_val (c # cs)))"

section \<open>ReadingParser\<close>

text \<open>
  \<^verbatim>\<open>_find_int_after(s, key, start)\<close> returns \<^verbatim>\<open>(None, -1)\<close> or \<^verbatim>\<open>(value, end)\<close>; the
  model returns \<open>None\<close> or \<open>Some (value, end)\<close>.
\<close>

definition find_int_after :: "string \<Rightarrow> string \<Rightarrow> nat \<Rightarrow> (int \<times> nat) option" where
  "find_int_after s key start =
     (case str_find s key start of
        None \<Rightarrow> None
      | Some i0 \<Rightarrow>
          (let i = skip_while is_ws s (i0 + length key);
               j0 = (if i < length s \<and> s ! i = CHR ''-'' then i + 1 else i);
               j = skip_while isdigit s j0
           in if j = i \<or> (j = i + 1 \<and> s ! i = CHR ''-'') then None
              else Some (int_of_text (take (j - i) (drop i s)), j)))"

text \<open>\<^verbatim>\<open>_find_str_after(s, key, start)\<close>, with the same convention.\<close>

definition find_str_after :: "string \<Rightarrow> string \<Rightarrow> nat \<Rightarrow> (string \<times> nat) option" where
  "find_str_after s key start =
     (case str_find s key start of
        None \<Rightarrow> None
      | Some i0 \<Rightarrow>
          (let i = skip_while is_ws s (i0 + length key)
           in case str_find s [CHR 0x22] i of
                None \<Rightarrow> None
              | Some q1 \<Rightarrow>
                  (case str_find s [CHR 0x22] (q1 + 1) of
                     None \<Rightarrow> None
                   | Some q2 \<Rightarrow> Some (take (q2 - (q1 + 1)) (drop (q1 + 1) s), q2 + 1))))"

definition lower_char :: "char \<Rightarrow> char" where
  "lower_char c =
     (if c \<in> set ''ABCDEFGHIJKLMNOPQRSTUVWXYZ'' then char_of (of_char c + (32::nat)) else c)"

definition str_lower :: "string \<Rightarrow> string" where
  "str_lower s = map lower_char s"

definition is_mgdl :: "string \<Rightarrow> bool" where
  \<comment> \<open>\<^verbatim>\<open>str(DISPLAY_UNITS).lower() == "mgdl"\<close>\<close>
  "is_mgdl units = (str_lower units = ''mgdl'')"

text \<open>
  \<^verbatim>\<open>round(x, 1)\<close>: the nearest multiple of one tenth, a tie going to the even tenth.
\<close>

definition round_half_even :: "rat \<Rightarrow> int" where
  "round_half_even y =
     (let f = \<lfloor>y\<rfloor>; d = y - of_int f
      in if d < 1 / 2 then f else if 1 / 2 < d then f + 1 else if even f then f else f + 1)"

definition round1 :: "rat \<Rightarrow> rat" where
  "round1 x = of_int (round_half_even (x * 10)) / 10"

definition mgdl_to_units :: "string \<Rightarrow> int \<Rightarrow> rat" where
  "mgdl_to_units units val_mgdl =
     (if is_mgdl units then of_int val_mgdl else round1 (of_int val_mgdl / 18))"

definition direction_to_arrow :: "string option \<Rightarrow> string" where
  "direction_to_arrow direction =
     (let d = (case direction of None \<Rightarrow> ''NONE'' | Some x \<Rightarrow> if x = [] then ''NONE'' else x)
      in if d = ''Flat'' then ''B''
         else if d = ''SingleUp'' then ''G''
         else if d = ''DoubleUp'' then ''GG''
         else if d = ''SingleDown'' then ''H''
         else if d = ''DoubleDown'' then ''HH''
         else if d = ''FortyFiveUp'' then ''D''
         else if d = ''FortyFiveDown'' then ''F''
         else if d = ''NOT COMPUTABLE'' then ''--''
         else if d = ''NONE'' then ''--''
         else [])"

record reading =
  bg :: rat
  time_ms :: int
  direction :: string
  arrow :: string
  delta :: "rat option"

definition sgv_key :: string where
  \<open>sgv_key = ''"sgv":''\<close>

definition mills_key :: string where
  \<open>mills_key = ''"mills":''\<close>

definition date_key :: string where
  \<open>date_key = ''"date":''\<close>

definition direction_key :: string where
  \<open>direction_key = ''"direction":''\<close>

text \<open>
  \<^verbatim>\<open>parse_entries_from_text(txt)\<close>; \<open>txt\<close> is \<open>None\<close> when the fetch returned
  \<^verbatim>\<open>None\<close>, and \<open>units\<close> is the configured \<^verbatim>\<open>DISPLAY_UNITS\<close>.
\<close>

definition parse_entries_from_text :: "string \<Rightarrow> string option \<Rightarrow> reading option" where
  "parse_entries_from_text units txt0 =
     (case txt0 of
        None \<Rightarrow> None
      | Some txt \<Rightarrow>
          if txt = [] then None
          else
            (case find_int_after txt sgv_key 0 of
               None \<Rightarrow> None
             | Some (cur_sgv, p) \<Rightarrow>
                 (let cur_mills =
                        (case find_int_after txt mills_key p of
                           Some (m, _) \<Rightarrow> Some m
                         | None \<Rightarrow> map_option fst (find_int_after txt date_key p));
                      direction = map_option fst (find_str_after txt direction_key p);
                      prev_sgv = map_option fst (find_int_after txt sgv_key p);
                      delta_units =
                        (case prev_sgv of
                           None \<Rightarrow> None
                         | Some prev \<Rightarrow>
                             (let diff = (of_int cur_sgv :: rat) - of_int prev
                              in if is_mgdl units then Some diff else Some (diff / 18)))
                  in Some \<lparr> bg = mgdl_to_units units cur_sgv,
                            time_ms = (case cur_mills of None \<Rightarrow> 0 | Some m \<Rightarrow> m),
                            direction =
                              (case direction of
                                 None \<Rightarrow> ''NONE''
                               | Some d \<Rightarrow> if d = [] then ''NONE'' else d),
                            arrow = direction_to_arrow direction,
                            delta = delta_units \<rparr>)))"

text \<open>
  The staleness of a reading as \<^verbatim>\<open>draw_all_fields_if_needed\<close> computes it: whole
  minutes between the device clock \<open>now_s\<close> (seconds) and the reading's \<open>time_ms\<close>.
\<close>

definition age_mins :: "int \<Rightarrow> int \<Rightarrow> int" where
  "age_mins now_s t_ms =
     (let raw_s = t_ms div 1000;
          age_s = now_s - raw_s;
          age_s = (if age_s < 0 then 0 else age_s)
      in (age_s + 30) div 60)"

subsection \<open>The parser's input, in the words of the specification\<close>

text \<open>
  A text carries an integer at its start when, after optional blanks, it shows an optional
  minus sign and at least one digit. A \<^emph>\<open>token\<close> of a key is an occurrence of the key
  followed by such an integer; \<open>token_count\<close> counts the tokens of a body, and
  \<open>first_key_has_int\<close> says that the leftmost occurrence of the key is a token.
\<close>

definition int_token_at :: "string \<Rightarrow> bool" where
  "int_token_at r =
     (case dropWhile is_ws r of
        [] \<Rightarrow> False
      | c # cs \<Rightarrow> if c = CHR ''-'' then (case cs of [] \<Rightarrow> False | d # _ \<Rightarrow> isdigit d) else isdigit c)"

definition token_here :: "string \<Rightarrow> string \<Rightarrow> bool" where
  "token_here key s = (startswith s key \<and> int_token_at (drop (length key) s))"

fun token_count :: "string \<Rightarrow> string \<Rightarrow> nat" where
  "token_count key [] = 0"
| "token_count key (c # cs) = (if token_here key (c # cs) then 1 else 0) + token_count key cs"

fun first_key_has_int :: "string \<Rightarrow> string \<Rightarrow> bool" where
  "first_key_has_int key [] = False"
| "first_key_has_int key (c # cs) =
     (if startswith (c # cs) key then int_token_at (drop (length key) (c # cs))
      else first_key_has_int key cs)"

text \<open>
  The scan of \<^verbatim>\<open>_find_int_after\<close> behind the key, on the rest \<open>r\<close> of the text that
  starts at index \<open>base\<close>: the list form of the two index loops, used in the proofs.
\<close>

definition scan_int :: "string \<Rightarrow> nat \<Rightarrow> (int \<times> nat) option" where
  "scan_int r base =
     (let w = takeWhile is_ws r; r1 = dropWhile is_ws r;
          sg = (r1 \<noteq> [] \<and> hd r1 = CHR ''-'');
          r2 = (if sg then tl r1 else r1);
          ds = takeWhile isdigit r2
      in if ds = [] then None
         else Some (int_of_text ((if sg then ''-'' else []) @ ds),
                    base + length w + (if sg then 1 else 0) + length ds))"

section \<open>DataFetchClient: the count parameter\<close>

text \<open>
  \<^verbatim>\<open>re.sub(r"count=\d+", "count=2", endpoint)\<close>: from left to right, each occurrence of
  \<^verbatim>\<open>count=\<close> followed by at least one digit is replaced, together with all the digits
  that follow it, by \<^verbatim>\<open>count=2\<close>; the scan goes on behind the replaced text.
\<close>

function re_sub_count :: "string \<Rightarrow> string" where
  "re_sub_count [] = []"
| "re_sub_count (c # cs) =
     (if startswith (c # cs) ''count='' \<and> takeWhile isdigit (drop 6 (c # cs)) \<noteq> []
      then ''count=2'' @ re_sub_count (dropWhile isdigit (drop 6 (c # cs)))
      else c # re_sub_count cs)"
  by pat_completeness auto
termination
proof (relation "measure length")
  show "wf (measure length)" by simp
next
  fix c :: char and cs :: string
  have "length (dropWhile isdigit (drop 5 cs)) \<le> length (drop 5 cs)"
    by (rule length_dropWhile_le)
  then show "(dropWhile isdigit (drop 6 (c # cs)), c # cs) \<in> measure length" by simp
next
  fix c :: char and cs :: string
  show "(cs, c # cs) \<in> measure length" by simp
qed

declare re_sub_count.simps [simp del]

text \<open>\<^verbatim>\<open>ensure_count2(endpoint)\<close>.\<close>

definition ensure_count2 :: "string \<Rightarrow> string" where
  "ensure_count2 endpoint =
     (if str_in ''count='' endpoint then re_sub_count endpoint
      else (let joiner = (if str_in ''?'' endpoint then ''&'' else ''?'')
            in endpoint @ joiner @ ''count=2''))"

text \<open>The text \<^verbatim>\<open>count=\<close> followed by a digit occurs somewhere in \<open>e\<close>.\<close>

fun has_count_digits :: "string \<Rightarrow> bool" where
  "has_count_digits [] = False"
| "has_count_digits (c # cs) =
     ((startswith (c # cs) ''count='' \<and> takeWhile isdigit (drop 6 (c # cs)) \<noteq> [])
      \<or> has_count_digits cs)"

section \<open>AlertEngine\<close>

text \<open>
  The alert code reads the clock with \<^verbatim>\<open>utime.ticks_ms()\<close> and compares and advances it
  with \<^verbatim>\<open>utime.ticks_diff\<close> and \<^verbatim>\<open>utime.ticks_add\<close>. On MicroPython the tick counter
  is a small non-negative integer that wraps around: it lives in \<open>[0, TICKS_PERIOD)\<close> with
  \<open>TICKS_PERIOD = 2^30\<close> milliseconds (about 12.4 days), \<^verbatim>\<open>ticks_add\<close> adds modulo the
  period, and \<^verbatim>\<open>ticks_diff(a, b)\<close> is the difference \<open>a - b\<close> folded into
  \<open>[-TICKS_PERIOD/2, TICKS_PERIOD/2)\<close>.
\<close>

definition TICKS_PERIOD :: int where
  "TICKS_PERIOD = 2 ^ 30"

definition ticks_add :: "int \<Rightarrow> int \<Rightarrow> int" where
  "ticks_add t d = (t + d) mod TICKS_PERIOD"

definition ticks_diff :: "int \<Rightarrow> int \<Rightarrow> int" where
  "ticks_diff a b =
     ((a - b + TICKS_PERIOD div 2) mod TICKS_PERIOD) - TICKS_PERIOD div 2"

definition BUZZER_SNOOZE_MS :: int where
  "BUZZER_SNOOZE_MS = 10 * 60 * 1000"

definition MILD_COOLDOWN_MS :: int where
  "MILD_COOLDOWN_MS = 10 * 60 * 1000"

definition MILD_LOW_THRESHOLD :: rat where
  "MILD_LOW_THRESHOLD = 5"

definition SEVERE_LOW_THRESHOLD :: rat where
  "SEVERE_LOW_THRESHOLD = 4"

text \<open>
  \<^verbatim>\<open>buzzer_mode\<close> is 0 (off), 1 (severe, solid tone) or 2 (mild, pattern). The pin
  \<^verbatim>\<open>BUZ\<close> is active low: the value 1 holds the buzzer silent, 0 sounds it.
\<close>

datatype mode = Off | SevereSolid | MildPattern

record alert_state =
  buz :: nat
  buzzer_mode :: mode
  buzzer_snooze_until :: int
  last_mild_beep_time :: int

text \<open>The module's start values, with \<open>t0\<close> the tick counter at import.\<close>

definition initial_alert_state :: "int \<Rightarrow> alert_state" where
  "initial_alert_state t0 =
     \<lparr> buz = 1, buzzer_mode = Off, buzzer_snooze_until = 0,
       last_mild_beep_time = t0 - 10 * 60 * 1000 \<rparr>"

text \<open>\<^verbatim>\<open>request_buzzer_stop()\<close>, with \<open>now\<close> the value that \<^verbatim>\<open>ticks_ms()\<close> returns in it.\<close>

definition request_buzzer_stop :: "int \<Rightarrow> alert_state \<Rightarrow> alert_state" where
  "request_buzzer_stop now s =
     (if buzzer_mode s = Off then s
      else s\<lparr> buz := 1,
               buzzer_mode := Off,
               buzzer_snooze_until := ticks_add now BUZZER_SNOOZE_MS,
               last_mild_beep_time := now \<rparr>)"

text \<open>\<^verbatim>\<open>check_glucose_alerts(bg_value)\<close>, with \<open>now\<close> as above.\<close>

definition check_glucose_alerts :: "rat option \<Rightarrow> int \<Rightarrow> alert_state \<Rightarrow> alert_state" where
  "check_glucose_alerts bg_value now s =
     (case bg_value of
        None \<Rightarrow> s
      | Some v \<Rightarrow>
          (let snoozed = (ticks_diff now (buzzer_snooze_until s) < 0)
           in if snoozed then s\<lparr> buzzer_mode := Off \<rparr>
              else if v \<le> SEVERE_LOW_THRESHOLD then s\<lparr> buzzer_mode := SevereSolid \<rparr>
              else if v \<le> MILD_LOW_THRESHOLD then s\<lparr> buzzer_mode := MildPattern \<rparr>
              else s\<lparr> buzzer_mode := Off \<rparr>))"

text \<open>
  What one round of \<^verbatim>\<open>task_buzzer_driver\<close> decides at the tick \<open>now\<close>: sound the solid
  tone, play the three-pulse pattern, or hold the buzzer silent.
\<close>

datatype driver_action = SolidTone | PlayPattern | HoldSilent

definition buzzer_driver_action :: "int \<Rightarrow> alert_state \<Rightarrow> driver_action" where
  "buzzer_driver_action now s =
     (let snoozed = (ticks_diff now (buzzer_snooze_until s) < 0)
      in if buzzer_mode s = SevereSolid then SolidTone
         else if buzzer_mode s = MildPattern \<and> \<not> snoozed then
           (if ticks_diff now (last_mild_beep_time s) \<ge> MILD_COOLDOWN_MS then PlayPattern
            else HoldSilent)
         else HoldSilent)"

section \<open>DataFetchClient: the request\<close>

text \<open>
  Bytes and text are both lists of \<open>char\<close>. The two places where the code turns bytes into
  text (\<^verbatim>\<open>decode("utf-8", "ignore")\<close>) go through the function \<open>decode\<close> of the
  environment, about which nothing is assumed. An exception that leaves a function is a
  value \<open>Inl e\<close>.
\<close>

datatype py_error = ValueError

definition is_space :: "char \<Rightarrow> bool" where
  \<comment> \<open>the characters that \<^verbatim>\<open>str.strip()\<close> and \<^verbatim>\<open>int()\<close> skip\<close>
  "is_space c = (c \<in> set [CHR '' '', CHR 0x09, CHR 0x0A, CHR 0x0B, CHR 0x0C, CHR 0x0D])"

definition str_strip :: "string \<Rightarrow> string" where
  "str_strip s = rev (dropWhile is_space (rev (dropWhile is_space s)))"

text \<open>
  \<^verbatim>\<open>int(t)\<close> on an arbitrary text: blanks around an optional sign and decimal digits;
  \<open>None\<close> stands for the \<^verbatim>\<open>ValueError\<close> on anything else.
\<close>

definition py_int :: "string \<Rightarrow> int option" where
  "py_int t =
     (let s = str_strip t;
          neg = (s \<noteq> [] \<and> hd s = CHR ''-'');
          ds = (if s \<noteq> [] \<and> (hd s = CHR ''-'' \<or> hd s = CHR ''+'') then tl s else s)
      in if ds \<noteq> [] \<and> list_all isdigit ds
         then Some (if neg then - int (digits_val ds) else int (digits_val ds))
         else None)"

text \<open>\<^verbatim>\<open>s.split(sep, 1)\<close>: the text before the first \<open>sep\<close>, and the text behind it if any.\<close>

definition split1 :: "string \<Rightarrow> string \<Rightarrow> string \<times> string option" where
  "split1 sep s =
     (case str_find s sep 0 of
        None \<Rightarrow> (s, None)
      | Some i \<Rightarrow> (take i s, Some (drop (i + length sep) s)))"

text \<open>\<^verbatim>\<open>s.split(sep)\<close> for a non-empty \<open>sep\<close>; \<open>acc\<close> holds the current piece, reversed.\<close>

function split_acc :: "string \<Rightarrow> string \<Rightarrow> string \<Rightarrow> string list" where
  "split_acc sep acc [] = [rev acc]"
| "split_acc sep acc (c # cs) =
     (if sep \<noteq> [] \<and> startswith (c # cs) sep
      then rev acc # split_acc sep [] (drop (length sep) (c # cs))
      else split_acc sep (c # acc) cs)"
  by pat_completeness auto
termination
proof (relation "measure (\<lambda>(sep, acc, s). length s)")
  show "wf (measure (\<lambda>(sep, acc, s). length s))" by simp
next
  fix sep acc :: string and c :: char and cs :: string
  assume "sep \<noteq> [] \<and> startswith (c # cs) sep"
  then have "0 < length sep" by simp
  then show "((sep, [], drop (length sep) (c # cs)), (sep, acc, c # cs))
               \<in> measure (\<lambda>(sep, acc, s). length s)" by simp
next
  fix sep acc :: string and c :: char and cs :: string
  show "((sep, c # acc, cs), (sep, acc, c # cs)) \<in> measure (\<lambda>(sep, acc, s). length s)" by simp
qed

declare split_acc.simps [simp del]

definition str_split :: "string \<Rightarrow> string \<Rightarrow> string list" where
  "str_split sep s = split_acc sep [] s"

definition CRLF :: string where
  "CRLF = [CHR 0x0D, CHR 0x0A]"

subsection \<open>\<^verbatim>\<open>_parse_url\<close>\<close>

text \<open>
  The result is \<open>(scheme, host, port, path)\<close>; \<open>None\<close> stands for the \<^verbatim>\<open>ValueError\<close>
  that the function raises on a missing scheme, or that \<^verbatim>\<open>int(port_s)\<close> raises.
\<close>

type_synonym url_parts = "string \<times> string \<times> int \<times> string"

definition parse_url :: "string \<Rightarrow> url_parts option" where
  "parse_url u =
     (case (if startswith u ''http://'' then Some (''http'', drop 7 u, 80 :: int)
            else if startswith u ''https://'' then Some (''https'', drop 8 u, 443)
            else None) of
        None \<Rightarrow> None
      | Some (scheme, rest, default_port) \<Rightarrow>
          (let (hostport, path) =
                 (case split1 ''/'' rest of
                    (h, Some p) \<Rightarrow> (h, ''/'' @ p)
                  | (h, None) \<Rightarrow> (h, ''/''))
           in case split1 '':'' hostport of
                (host, Some port_s) \<Rightarrow>
                  (case py_int port_s of
                     None \<Rightarrow> None
                   | Some port \<Rightarrow> Some (scheme, host, port, path))
              | (host, None) \<Rightarrow> Some (scheme, hostport, default_port, path)))"

subsection \<open>The receive loop\<close>

text \<open>
  The peer and the clock as the loop sees them: round \<open>i\<close> of the loop first reads the
  milliseconds elapsed since the loop began, then asks \<^verbatim>\<open>s.recv(256)\<close>, which returns
  bytes (none when the peer has closed) or raises (a socket timeout or error).
\<close>

datatype recv_result = Data string | RecvError

type_synonym peer = "nat \<Rightarrow> int \<times> recv_result"

definition RECV_BUDGET_MS :: int where
  "RECV_BUDGET_MS = 1200"

text \<open>
  The \<^verbatim>\<open>while True\<close> loop of \<^verbatim>\<open>_one_request\<close>, from round \<open>i\<close> with the buffer \<open>buf\<close>;
  \<open>None\<close> stands for the exception of \<^verbatim>\<open>recv\<close>. Each further round has a longer buffer,
  and no round goes beyond \<open>cap\<close>.
\<close>

function recv_loop :: "peer \<Rightarrow> nat \<Rightarrow> nat \<Rightarrow> string \<Rightarrow> string option" where
  "recv_loop p cap i buf =
     (if fst (p i) > RECV_BUDGET_MS then Some buf
      else
        (case snd (p i) of
           RecvError \<Rightarrow> None
         | Data chunk \<Rightarrow>
             if chunk = [] then Some buf
             else if length buf + length chunk > cap then
               (let tk = int cap - int (length buf)
                in if tk > 0 then Some (buf @ take (nat tk) chunk) else Some buf)
             else recv_loop p cap (i + 1) (buf @ chunk)))"
  by pat_completeness auto
termination
proof (relation "measure (\<lambda>(p, cap, i, buf). cap - length buf)")
  show "wf (measure (\<lambda>(p, cap, i, buf). cap - length buf))" by simp
next
  fix p :: peer and cap i :: nat and buf chunk :: string
  assume "chunk \<noteq> []" and "\<not> cap < length buf + length chunk"
  then have "cap - length (buf @ chunk) < cap - length buf"
    by (cases chunk) simp_all
  then show "((p, cap, i + 1, buf @ chunk), (p, cap, i, buf))
               \<in> measure (\<lambda>(p, cap, i, buf). cap - length buf)" by simp
qed

declare recv_loop.simps [simp del]

subsection \<open>Status line and headers\<close>

definition parse_status :: "string \<Rightarrow> int option" where
  \<comment> \<open>the \<^verbatim>\<open>try\<close> block around \<^verbatim>\<open>int(parts[1])\<close>: any failure leaves the status \<^verbatim>\<open>None\<close>\<close>
  "parse_status head =
     (let status_line = fst (split1 CRLF head);
          parts = str_split '' '' status_line
      in if length parts \<ge> 2 then py_int (parts ! 1) else None)"

definition parse_headers :: "string \<Rightarrow> (string \<rightharpoonup> string)" where
  "parse_headers head =
     foldl (\<lambda>hdrs line.
              case split1 '':'' line of
                (k, Some v) \<Rightarrow> hdrs(str_lower (str_strip k) \<mapsto> str_strip v)
              | (k, None) \<Rightarrow> hdrs)
       Map.empty (tl (str_split CRLF head))"

subsection \<open>\<^verbatim>\<open>_one_request\<close>\<close>

text \<open>
  What the network does to one connection: whether the address lookup and the connect
  succeed, whether the TLS handshake does (asked only for \<^verbatim>\<open>https\<close>), whether the request
  can be sent, and then the peer of the receive loop.
\<close>

record conn =
  connect_ok :: bool
  tls_ok :: bool
  send_ok :: bool
  peer_of :: peer

type_synonym response = "int option \<times> (string \<rightharpoonup> string) option \<times> string option"

definition no_response :: response where
  \<comment> \<open>\<^verbatim>\<open>return None, None, None\<close>\<close>
  "no_response = (None, None, None)"

text \<open>The part of \<^verbatim>\<open>_one_request\<close> behind the loop, on the received bytes \<open>raw\<close>.\<close>

definition split_response :: "(string \<Rightarrow> string) \<Rightarrow> nat \<Rightarrow> string \<Rightarrow> response" where
  "split_response decode max_body raw =
     (case str_find raw (CRLF @ CRLF) 0 of
        None \<Rightarrow> no_response
      | Some sep \<Rightarrow>
          (let head = decode (take sep raw);
               body = take max_body (drop (sep + 4) raw)
           in (parse_status head, Some (parse_headers head), Some body)))"

definition one_request ::
  "(string \<Rightarrow> string) \<Rightarrow> (url_parts \<Rightarrow> conn) \<Rightarrow> string \<Rightarrow> nat \<Rightarrow> py_error + response" where
  "one_request decode net u max_body =
     (case parse_url u of
        None \<Rightarrow> Inl ValueError
      | Some (scheme, host, port, path) \<Rightarrow>
          (let c = net (scheme, host, port, path)
           in if \<not> connect_ok c then Inr no_response
              else if scheme = ''https'' \<and> \<not> tls_ok c then Inr no_response
              else if \<not> send_ok c then Inr no_response
              else
                (case recv_loop (peer_of c) (max_body + 1024) 0 [] of
                   None \<Rightarrow> Inr no_response
                 | Some raw \<Rightarrow> Inr (split_response decode max_body raw))))"

subsection \<open>\<^verbatim>\<open>fetch_ns_text\<close>\<close>

text \<open>
  The environment of one fetch: the state of the station interface (its query may itself
  raise), the configured \<^verbatim>\<open>NS_URL\<close> and \<^verbatim>\<open>API_ENDPOINT\<close>, the free memory, the decoder,
  and the network's answer to the first and to the second request.
\<close>

datatype link = LinkUp | LinkDown | LinkCheckFails

record env =
  wlan :: link
  NS_URL :: string
  API_ENDPOINT :: string
  mem_free :: int
  decode :: "string \<Rightarrow> string"
  net :: "nat \<Rightarrow> url_parts \<Rightarrow> conn"

definition MIN_FREE :: int where
  "MIN_FREE = 20000"

definition is_redirect :: "int \<Rightarrow> bool" where
  "is_redirect status = (status \<in> set [301, 302, 303, 307, 308])"

text \<open>The URL of the first request: \<^verbatim>\<open>NS_URL + ensure_count2(API_ENDPOINT)\<close>.\<close>

definition request_url :: "env \<Rightarrow> string" where
  "request_url e = NS_URL e @ ensure_count2 (API_ENDPOINT e)"

text \<open>The end of \<^verbatim>\<open>fetch_ns_text\<close>, from \<^verbatim>\<open>if status != 200\<close> on.\<close>

definition finish :: "(string \<Rightarrow> string) \<Rightarrow> int \<Rightarrow> string option \<Rightarrow> string option" where
  "finish dec status body =
     (if status \<noteq> 200 then None
      else case body of
             None \<Rightarrow> None
           | Some b \<Rightarrow> if b = [] then None else Some (dec b))"

text \<open>
  \<^verbatim>\<open>fetch_ns_text()\<close>. The first component is what the call gives back: \<open>Inr (Some text)\<close>,
  \<open>Inr None\<close> for \<^verbatim>\<open>None\<close>, or \<open>Inl e\<close> when the exception \<open>e\<close> leaves the function (its
  \<^verbatim>\<open>try\<close> has a \<^verbatim>\<open>finally\<close> and no \<^verbatim>\<open>except\<close>). The second component lists the URLs on
  which \<^verbatim>\<open>_one_request\<close> was called, in order.
\<close>

definition fetch_ns_text :: "env \<Rightarrow> (py_error + string option) \<times> string list" where
  "fetch_ns_text e =
     (if wlan e \<noteq> LinkUp then (Inr None, [])
      else if NS_URL e = [] then (Inr None, [])
      else
        (let url = request_url e
         in if mem_free e < MIN_FREE then (Inr None, [])
            else
              (case one_request (decode e) (net e 0) url 2048 of
                 Inl err \<Rightarrow> (Inl err, [url])
               | Inr (status, hdrs, body) \<Rightarrow>
                   (case status of
                      None \<Rightarrow> (Inr None, [url])
                    | Some st \<Rightarrow>
                        if is_redirect st then
                          (case (case hdrs of None \<Rightarrow> None | Some h \<Rightarrow> h ''location'') of
                             None \<Rightarrow> (Inr None, [url])
                           | Some loc \<Rightarrow>
                               if loc = [] then (Inr None, [url])
                               else
                                 (case one_request (decode e) (net e 1) loc 2048 of
                                    Inl err \<Rightarrow> (Inl err, [url, loc])
                                  | Inr (status2, hdrs2, body2) \<Rightarrow>
                                      (case status2 of
                                         None \<Rightarrow> (Inr None, [url, loc])
                                       | Some st2 \<Rightarrow>
                                           (Inr (finish (decode e) st2 body2), [url, loc]))))
                        else (Inr (finish (decode e) st body), [url])))))"

subsection \<open>Example environments\<close>

text \<open>
  A peer that delivers the response \<open>r\<close> in one chunk and then closes, a connection on
  which everything succeeds, and an environment whose first request is answered by a
  redirect and whose second by a reading.
\<close>

definition single_peer :: "string \<Rightarrow> peer" where
  "single_peer r = (\<lambda>k. (0, Data (if k = 0 then r else [])))"

definition open_conn :: "peer \<Rightarrow> conn" where
  "open_conn p = \<lparr> connect_ok = True, tls_ok = True, send_ok = True, peer_of = p \<rparr>"

definition found_302 :: string where
  "found_302 = ''HTTP/1.1 302 Found'' @ CRLF @ ''Location: http://b.example/y'' @ CRLF @ CRLF"

definition ok_200 :: string where
  "ok_200 = ''HTTP/1.1 200 OK'' @ CRLF @ CRLF @ ''[{}]''"

definition example_env :: env where
  "example_env =
     \<lparr> wlan = LinkUp, NS_URL = ''http://a.example'', API_ENDPOINT = ''/e?count=2'',
       mem_free = 50000, decode = id,
       net = (\<lambda>k parts. open_conn (single_peer (if k = 0 then found_302 else ok_200))) \<rparr>"


section \<open>ScreenRenderer\<close>

text \<open>
  The panel is seen through the calls made on it, which a render pass appends to a list:
  a full clear and a full flush, a filled rectangle, a partial flush, a text printed by one
  of the six writers, and the big digits. The glyph tables are not part of the sources;
  the writers' metrics (\<^verbatim>\<open>stringlen\<close>, \<^verbatim>\<open>font.height()\<close>) and the big digits' widths and
  height are parameters.
\<close>

type_synonym rect = "int \<times> int \<times> int \<times> int"












text \<open>
  \<^verbatim>\<open>_union_rect(r1, r2)\<close>; at every call the second rectangle is a tuple, the first may be
  \<^verbatim>\<open>None\<close>.
\<close>

fun union_rect :: "rect option \<Rightarrow> rect \<Rightarrow> rect" where
  "union_rect None r2 = r2"
| "union_rect (Some (x1, y1, w1, h1)) (x2, y2, w2, h2) =
     (let ax1 = x1; ay1 = y1; ax2 = x1 + w1; ay2 = y1 + h1;
          bx1 = x2; by1 = y2; bx2 = x2 + w2; by2 = y2 + h2;
          ux1 = (if ax1 < bx1 then ax1 else bx1);
          uy1 = (if ay1 < by1 then ay1 else by1);
          ux2 = (if ax2 > bx2 then ax2 else bx2);
          uy2 = (if ay2 > by2 then ay2 else by2)
      in (ux1, uy1, ux2 - ux1, uy2 - uy1))"







subsection \<open>The fields\<close>
















subsection \<open>The render pass\<close>










subsection \<open>The cache between passes\<close>




subsection \<open>The calls of a field\<close>







subsection \<open>An example panel\<close>




section \<open>Verification\<close>


lemma drop_skip_while: "drop (skip_while p s i) s = dropWhile p (drop i s)"
  by (simp add: skip_while_def dropWhile_eq_drop add.commute)

lemma skip_while_le: "i \<le> length s \<Longrightarrow> skip_while p s i \<le> length s"
proof -
  assume a: "i \<le> length s"
  have "length (takeWhile p (drop i s)) \<le> length (drop i s)" by (rule length_takeWhile_le)
  with a show ?thesis by (simp add: skip_while_def)
qed

lemma find_at_bounds: "find_at key r i = Some k \<Longrightarrow> i \<le> k \<and> k \<le> i + length r"
proof (induction r arbitrary: i)
  case Nil then show ?case by (simp split: if_splits)
next
  case (Cons c cs)
  show ?case
  proof (cases "startswith (c # cs) key")
    case True with Cons.prems show ?thesis by simp
  next
    case False
    with Cons.prems have "find_at key cs (Suc i) = Some k" by simp
    from Cons.IH[OF this] show ?thesis by simp
  qed
qed

lemma find_at_shift: "find_at key r i = map_option (\<lambda>k. k + i) (find_at key r 0)"
proof (induction r arbitrary: i)
  case Nil show ?case by simp
next
  case (Cons c cs)
  have a: "find_at key cs (Suc i) = map_option (\<lambda>k. k + Suc i) (find_at key cs 0)" by (rule Cons.IH)
  have b: "find_at key cs (Suc 0) = map_option (\<lambda>k. k + Suc 0) (find_at key cs 0)" by (rule Cons.IH)
  show ?case by (simp add: a b option.map_comp comp_def)
qed

lemma str_find_bounds: "str_find s key start = Some k \<Longrightarrow> start \<le> k \<and> k \<le> length s"
  using find_at_bounds[of key "drop start s" start k]
  by (auto simp: str_find_def split: if_splits)

lemma find_int_after_scan:
  "find_int_after s key start =
     (case str_find s key start of None \<Rightarrow> None
      | Some i0 \<Rightarrow> scan_int (drop (i0 + length key) s) (i0 + length key))"
proof (cases "str_find s key start")
  case None then show ?thesis by (simp add: find_int_after_def)
next
  case (Some i0)
  define b where "b = i0 + length key"
  define r where "r = drop b s"
  define i where "i = skip_while is_ws s b"
  define r1 where "r1 = dropWhile is_ws r"
  define sg where "sg = (r1 \<noteq> [] \<and> hd r1 = CHR ''-'')"
  define r2 where "r2 = (if sg then tl r1 else r1)"
  define ds where "ds = takeWhile isdigit r2"
  define j0 where "j0 = (if i < length s \<and> s ! i = CHR ''-'' then i + 1 else i)"
  define j where "j = skip_while isdigit s j0"
  have r1: "drop i s = r1" by (simp add: i_def r1_def r_def drop_skip_while)
  have iw: "i = b + length (takeWhile is_ws r)" by (simp add: i_def skip_while_def r_def)
  have sg_iff: "sg \<longleftrightarrow> (i < length s \<and> s ! i = CHR ''-'')"
  proof
    assume sg
    then have ne: "r1 \<noteq> []" and h: "hd r1 = CHR ''-''" by (simp_all add: sg_def)
    from ne r1 have il: "i < length s" by (metis drop_eq_Nil not_le)
    with h r1 show "i < length s \<and> s ! i = CHR ''-''" by (metis hd_drop_conv_nth)
  next
    assume h: "i < length s \<and> s ! i = CHR ''-''"
    then have "r1 \<noteq> []" using r1 by auto
    moreover have "hd r1 = CHR ''-''" using h r1 by (metis hd_drop_conv_nth)
    ultimately show sg by (simp add: sg_def)
  qed
  have j0: "j0 = i + (if sg then 1 else 0)" by (simp add: j0_def sg_iff)
  have dj0: "drop j0 s = r2"
  proof (cases sg)
    case True
    have "drop (Suc i) s = tl r1" using r1 by (metis drop_Suc tl_drop)
    with True show ?thesis by (simp add: j0 r2_def)
  next
    case False then show ?thesis by (simp add: j0 r2_def r1)
  qed
  have jv: "j = j0 + length ds" by (simp add: j_def skip_while_def dj0 ds_def)
  have cond: "(j = i \<or> (j = i + 1 \<and> s ! i = CHR ''-'')) \<longleftrightarrow> ds = []"
  proof (cases sg)
    case True then show ?thesis using sg_iff by (auto simp: jv j0)
  next
    case False
    show ?thesis
    proof (cases "ds = []")
      case True then show ?thesis using False by (simp add: jv j0)
    next
      case ne: False
      then have "r2 \<noteq> []" by (auto simp: ds_def)
      then have "i < length s" using False r1 by (auto simp: r2_def)
      then have "s ! i \<noteq> CHR ''-''" using False sg_iff by simp
      then show ?thesis using ne False by (simp add: jv j0)
    qed
  qed
  have tk: "take (j - i) (drop i s) = (if sg then ''-'' else []) @ ds"
  proof (cases sg)
    case True
    then obtain t where t: "r1 = CHR ''-'' # t" by (cases r1) (auto simp: sg_def)
    have "r2 = t" using True t by (simp add: r2_def)
    then have "take (length ds) t = ds" by (simp add: ds_def takeWhile_eq_take[symmetric])
    then show ?thesis using True t by (simp add: jv j0 r1)
  next
    case False
    then have "r2 = r1" by (simp add: r2_def)
    then have "take (length ds) r1 = ds" by (simp add: ds_def takeWhile_eq_take[symmetric])
    then show ?thesis using False by (simp add: jv j0 r1)
  qed
  have lhs: "find_int_after s key start =
      (if j = i \<or> (j = i + 1 \<and> s ! i = CHR ''-'') then None
       else Some (int_of_text (take (j - i) (drop i s)), j))"
    by (simp add: find_int_after_def Some Let_def b_def i_def j0_def j_def)
  have rhs: "scan_int (drop (i0 + length key) s) (i0 + length key) =
      (if ds = [] then None
       else Some (int_of_text ((if sg then ''-'' else []) @ ds),
                  b + length (takeWhile is_ws r) + (if sg then 1 else 0) + length ds))"
    by (simp add: scan_int_def Let_def b_def r_def r1_def sg_def r2_def ds_def)
  have je: "j = b + length (takeWhile is_ws r) + (if sg then 1 else 0) + length ds"
    by (simp add: jv j0 iw)
  have l2: "find_int_after s key start =
      (if ds = [] then None else Some (int_of_text ((if sg then ''-'' else []) @ ds), j))"
    unfolding lhs cond tk ..
  show ?thesis unfolding Some option.case l2 rhs je[symmetric] ..
qed


lemma scan_int_iff: "(scan_int r b = None) = (\<not> int_token_at r)"
proof -
  have nd: "\<not> isdigit (CHR ''-'')" by (simp add: isdigit_def)
  define r1 where "r1 = dropWhile is_ws r"
  show ?thesis
  proof (cases r1)
    case Nil
    then show ?thesis by (simp add: scan_int_def int_token_at_def Let_def r1_def[symmetric])
  next
    case (Cons c cs)
    show ?thesis
    proof (cases "c = CHR ''-''")
      case True
      then show ?thesis using Cons
        by (cases cs) (simp_all add: scan_int_def int_token_at_def Let_def r1_def[symmetric])
    next
      case False
      then show ?thesis using Cons
        by (simp add: scan_int_def int_token_at_def Let_def r1_def[symmetric])
    qed
  qed
qed

lemma scan_int_base: "scan_int r b = map_option (\<lambda>(v, e). (v, e + b)) (scan_int r 0)"
  by (simp add: scan_int_def Let_def)

lemma str_find_drop:
  "start \<le> length s \<Longrightarrow>
   str_find s key start = map_option (\<lambda>k. k + start) (str_find (drop start s) key 0)"
  using find_at_shift[of key "drop start s" start] by (simp add: str_find_def)

lemma find_int_after_drop:
  assumes "start \<le> length s"
  shows "find_int_after s key start =
         map_option (\<lambda>(v, e). (v, e + start)) (find_int_after (drop start s) key 0)"
proof (cases "str_find (drop start s) key 0")
  case None
  then show ?thesis using str_find_drop[OF assms, of key] by (simp add: find_int_after_scan)
next
  case (Some k)
  have a: "str_find s key start = Some (k + start)"
    using str_find_drop[OF assms, of key] Some by simp
  have d: "drop (k + start + length key) s = drop (k + length key) (drop start s)"
    by (simp add: add.commute add.left_commute)
  show ?thesis
    unfolding find_int_after_scan a Some option.case d
    by (subst scan_int_base, subst (2) scan_int_base)
       (simp add: option.map_comp comp_def split_def ac_simps)
qed

lemma find_int_after_first:
  assumes "key \<noteq> []"
  shows "find_int_after s key 0 \<noteq> None \<longleftrightarrow> first_key_has_int key s"
proof (induction s)
  case Nil
  show ?case using assms by (simp add: find_int_after_scan str_find_def)
next
  case (Cons c cs)
  show ?case
  proof (cases "startswith (c # cs) key")
    case True
    then have "find_int_after (c # cs) key 0 = scan_int (drop (length key) (c # cs)) (length key)"
      by (simp add: find_int_after_scan str_find_def)
    then have "(find_int_after (c # cs) key 0 = None) = (\<not> int_token_at (drop (length key) (c # cs)))"
      by (simp only: scan_int_iff)
    then show ?thesis using True by simp
  next
    case False
    have "find_int_after (c # cs) key (Suc 0) =
          map_option (\<lambda>(v, e). (v, e + Suc 0)) (find_int_after cs key 0)"
      using find_int_after_drop[of "Suc 0" "c # cs" key] by simp
    moreover have "str_find (c # cs) key 0 = str_find (c # cs) key (Suc 0)"
      using False by (simp add: str_find_def)
    then have "find_int_after (c # cs) key 0 = find_int_after (c # cs) key (Suc 0)"
      by (simp add: find_int_after_scan)
    ultimately show ?thesis using False Cons.IH by simp
  qed
qed

lemma first_imp_count: "first_key_has_int key s \<Longrightarrow> 0 < token_count key s"
  by (induction s) (auto simp: token_here_def split: if_splits)



lemma find_at_startswith: "find_at key r i = Some k \<Longrightarrow> startswith (drop (k - i) r) key"
proof (induction r arbitrary: i)
  case Nil then show ?case by (simp add: startswith_def split: if_splits)
next
  case (Cons c cs)
  show ?case
  proof (cases "startswith (c # cs) key")
    case True with Cons.prems show ?thesis by simp
  next
    case False
    with Cons.prems have f: "find_at key cs (Suc i) = Some k" by simp
    from find_at_bounds[OF f] have "Suc i \<le> k" by simp
    then have "k - i = Suc (k - Suc i)" by simp
    with Cons.IH[OF f] show ?thesis by simp
  qed
qed

lemma str_find_startswith: "str_find s key start = Some k \<Longrightarrow> startswith (drop k s) key"
proof -
  assume a: "str_find s key start = Some k"
  then have f: "find_at key (drop start s) start = Some k" by (simp add: str_find_def split: if_splits)
  from find_at_bounds[OF f] have "start \<le> k" by simp
  with find_at_startswith[OF f] show ?thesis by simp
qed

lemma scan_int_end:
  assumes "scan_int r b = Some (v, e)"
  shows "b < e \<and> e \<le> b + length r"
proof -
  define w where "w = takeWhile is_ws r"
  define r1 where "r1 = dropWhile is_ws r"
  define sg where "sg = (r1 \<noteq> [] \<and> hd r1 = CHR ''-'')"
  define r2 where "r2 = (if sg then tl r1 else r1)"
  define ds where "ds = takeWhile isdigit r2"
  from assms have ne: "ds \<noteq> []" and e: "e = b + length w + (if sg then 1 else 0) + length ds"
    by (auto simp: scan_int_def Let_def w_def r1_def sg_def r2_def ds_def split: if_splits)
  have l1: "length w + length r1 = length r"
    using takeWhile_dropWhile_id[of is_ws r] by (metis length_append w_def r1_def)
  have l2: "(if sg then 1 else 0) + length r2 = length r1"
    by (cases r1) (auto simp: r2_def sg_def)
  have l3: "length ds \<le> length r2" unfolding ds_def by (rule length_takeWhile_le)
  from ne have "0 < length ds" by simp
  with e l1 l2 l3 show ?thesis by linarith
qed

lemma find_int_after_Some:
  assumes "find_int_after s key start = Some (v, e)"
  shows "\<exists>k. str_find s key start = Some k \<and> start \<le> k \<and> token_here key (drop k s)
             \<and> k + length key < e \<and> e \<le> length s"
proof -
  from assms obtain k where k: "str_find s key start = Some k"
    and sc: "scan_int (drop (k + length key) s) (k + length key) = Some (v, e)"
    by (auto simp: find_int_after_scan split: option.splits)
  have sw: "startswith (drop k s) key" using k by (rule str_find_startswith)
  have "scan_int (drop (k + length key) s) (k + length key) \<noteq> None" using sc by simp
  then have it: "int_token_at (drop (k + length key) s)" by (simp only: scan_int_iff) simp
  from str_find_bounds[OF k] have b: "start \<le> k" "k \<le> length s" by simp_all
  from sw have "length key \<le> length (drop k s)"
    by (metis startswith_def length_take min.cobounded1)
  then have kl: "k + length key \<le> length s" using b by simp
  from scan_int_end[OF sc] kl have "k + length key < e \<and> e \<le> length s" by auto
  moreover have "token_here key (drop k s)"
    using sw it by (simp add: token_here_def add.commute)
  ultimately show ?thesis using k b by blast
qed



lemma no_token_after:
  assumes key: "key \<noteq> []" and p: "p \<le> length s" and z: "token_count key (drop p s) = 0"
  shows "find_int_after s key p = None"
proof -
  have "\<not> first_key_has_int key (drop p s)" using first_imp_count[of key "drop p s"] z by auto
  then have "find_int_after (drop p s) key 0 = None" using find_int_after_first[OF key] by blast
  then show ?thesis using find_int_after_drop[OF p, of key] by simp
qed


lemma mills_key_ne: "mills_key \<noteq> []" by (simp add: mills_key_def)
lemma date_key_ne: "date_key \<noteq> []" by (simp add: date_key_def)

lemma parse_Some_iff:
  "parse_entries_from_text units (Some txt) =
     (case find_int_after txt sgv_key 0 of
        None \<Rightarrow> None
      | Some (cur_sgv, p) \<Rightarrow>
          Some \<lparr> bg = mgdl_to_units units cur_sgv,
                 time_ms = (case find_int_after txt mills_key p of
                              Some (m, _) \<Rightarrow> m
                            | None \<Rightarrow> (case find_int_after txt date_key p of
                                         Some (m, _) \<Rightarrow> m | None \<Rightarrow> 0)),
                 direction = (case find_str_after txt direction_key p of
                                None \<Rightarrow> ''NONE''
                              | Some (d, _) \<Rightarrow> if d = [] then ''NONE'' else d),
                 arrow = direction_to_arrow (map_option fst (find_str_after txt direction_key p)),
                 delta = (case find_int_after txt sgv_key p of
                            None \<Rightarrow> None
                          | Some (prev, _) \<Rightarrow>
                              Some (if is_mgdl units then of_int cur_sgv - of_int prev
                                    else (of_int cur_sgv - of_int prev) / 18)) \<rparr>)"
proof (cases "txt = []")
  case True
  then show ?thesis
    by (simp add: parse_entries_from_text_def find_int_after_scan str_find_def sgv_key_def)
next
  case False
  then show ?thesis
    by (auto simp: parse_entries_from_text_def Let_def split: option.splits)
qed


subsection \<open>Null results and the primary value\<close>




subsection \<open>The delta\<close>




subsection \<open>A reading without a timestamp\<close>

text \<open>
  Claim C10, as the code has it. When the leftmost \<^verbatim>\<open>"sgv":\<close> key is followed by an
  integer that ends at index \<open>p\<close>, and the body holds from \<open>p\<close> on no \<^verbatim>\<open>"mills":\<close> token
  and no \<^verbatim>\<open>"date":\<close> token, the parser still returns a reading, and its \<open>time_ms\<close> is
  0: the reading is as old as the device clock is large.
\<close>

theorem missing_timestamp_gives_zero:
  assumes "find_int_after body sgv_key 0 = Some (v, p)"
    and "token_count mills_key (drop p body) = 0"
    and "token_count date_key (drop p body) = 0"
  shows "\<exists>r. parse_entries_from_text units (Some body) = Some r \<and> time_ms r = 0
            \<and> (0 \<le> now_s \<longrightarrow> age_mins now_s (time_ms r) = (now_s + 30) div 60)"
proof -
  have pl: "p \<le> length body" using find_int_after_Some[OF assms(1)] by blast
  have m: "find_int_after body mills_key p = None"
    using no_token_after[OF mills_key_ne pl assms(2)] .
  have d: "find_int_after body date_key p = None"
    using no_token_after[OF date_key_ne pl assms(3)] .
  show ?thesis using assms(1) m d by (simp add: parse_Some_iff age_mins_def)
qed

theorem missing_timestamp_gives_zero_witness:
  \<open>find_int_after ''[{"sgv":100}]'' sgv_key 0 = Some (100, 11)
   \<and> token_count mills_key (drop 11 ''[{"sgv":100}]'') = 0
   \<and> token_count date_key (drop 11 ''[{"sgv":100}]'') = 0
   \<and> (0::int) \<le> 1700000000
   \<and> (\<exists>r. parse_entries_from_text ''mmol'' (Some ''[{"sgv":100}]'') = Some r \<and> time_ms r = 0
            \<and> age_mins 1700000000 (time_ms r) = 28333333)\<close>
proof -
  have h1: \<open>find_int_after ''[{"sgv":100}]'' sgv_key 0 = Some (100, 11)\<close> by code_simp
  have h2: \<open>token_count mills_key (drop 11 ''[{"sgv":100}]'') = 0\<close> by code_simp
  have h3: \<open>token_count date_key (drop 11 ''[{"sgv":100}]'') = 0\<close> by code_simp
  from missing_timestamp_gives_zero[OF h1 h2 h3, of "''mmol''" 1700000000]
  obtain r where a: \<open>parse_entries_from_text ''mmol'' (Some ''[{"sgv":100}]'') = Some r\<close>
    and b: "time_ms r = 0"
    and c: "(0::int) \<le> 1700000000 \<longrightarrow> age_mins 1700000000 (time_ms r) = (1700000000 + 30) div 60"
    by blast
  have d: "age_mins 1700000000 (time_ms r) = 28333333" using c by simp
  have e: \<open>\<exists>r. parse_entries_from_text ''mmol'' (Some ''[{"sgv":100}]'') = Some r \<and> time_ms r = 0
            \<and> age_mins 1700000000 (time_ms r) = 28333333\<close>
    using a b d by blast
  have z: "(0::int) \<le> 1700000000" by simp
  from h1 h2 h3 z e show ?thesis by (intro conjI)
qed

text \<open>
  The claim as worded fails where the valid token is not the leftmost key: this body holds
  a valid \<^verbatim>\<open>"sgv":\<close> token and no timestamp at all, and the parser returns null instead of
  a reading with \<open>time_ms = 0\<close>.
\<close>

theorem missing_timestamp_null_counterexample:
  \<open>token_count sgv_key ''[{"sgv":"x"},{"sgv":87}]'' = 1
   \<and> token_count mills_key ''[{"sgv":"x"},{"sgv":87}]'' = 0
   \<and> token_count date_key ''[{"sgv":"x"},{"sgv":87}]'' = 0
   \<and> parse_entries_from_text ''mmol'' (Some ''[{"sgv":"x"},{"sgv":87}]'') = None\<close>
  by code_simp

subsection \<open>The count parameter\<close>


lemma find_at_None: "find_at key s i = None \<longleftrightarrow> find_at key s 0 = None"
proof (induction s arbitrary: i)
  case Nil show ?case by simp
next
  case (Cons c cs)
  have "find_at key cs (Suc i) = None \<longleftrightarrow> find_at key cs 0 = None" by (rule Cons.IH)
  moreover have "find_at key cs (Suc 0) = None \<longleftrightarrow> find_at key cs 0 = None" by (rule Cons.IH)
  ultimately show ?case by simp
qed


lemma str_in_Cons: "str_in key (c # cs) \<longleftrightarrow> startswith (c # cs) key \<or> str_in key cs"
proof -
  have "(find_at key cs (Suc 0) = None) = (find_at key cs 0 = None)" by (rule find_at_None)
  then have "(find_at key cs (Suc 0) \<noteq> None) = (find_at key cs 0 \<noteq> None)" by simp
  then show ?thesis by (simp add: str_in_def str_find_def del: not_None_eq)
qed











lemma no_count_no_digits: "\<not> str_in ''count='' e \<Longrightarrow> \<not> has_count_digits e"
  by (induction e) (auto simp: str_in_Cons)








lemma joiner_cases: "(if str_in ''?'' e then ''&'' else ''?'') = [j] \<Longrightarrow> j \<noteq> CHR ''=''"
  by (auto split: if_splits)







subsection \<open>Alert evaluation and the wrapping clock\<close>

lemma ticks_diff_near:
  assumes "- (TICKS_PERIOD div 2) \<le> a - b" and "a - b < TICKS_PERIOD div 2"
  shows "ticks_diff a b = a - b"
proof -
  have p: "TICKS_PERIOD = 2 * (TICKS_PERIOD div 2)" by (simp add: TICKS_PERIOD_def)
  have "0 \<le> a - b + TICKS_PERIOD div 2" using assms(1) by simp
  moreover have "a - b + TICKS_PERIOD div 2 < TICKS_PERIOD" using assms(2) p by linarith
  ultimately have "(a - b + TICKS_PERIOD div 2) mod TICKS_PERIOD = a - b + TICKS_PERIOD div 2"
    by (rule mod_pos_pos_trivial)
  then show ?thesis by (simp add: ticks_diff_def)
qed

lemma ticks_add_ahead:
  assumes "0 \<le> d" and "d < TICKS_PERIOD div 2"
  shows "ticks_diff (ticks_add t d) t = d"
proof -
  have h: "TICKS_PERIOD div 2 < TICKS_PERIOD" by (simp add: TICKS_PERIOD_def)
  have "((t + d) mod TICKS_PERIOD - t + TICKS_PERIOD div 2) mod TICKS_PERIOD
        = (t + d - t + TICKS_PERIOD div 2) mod TICKS_PERIOD"
    by (metis (no_types) mod_add_left_eq mod_diff_left_eq)
  also have "\<dots> = (d + TICKS_PERIOD div 2) mod TICKS_PERIOD" by simp
  also have "\<dots> = d + TICKS_PERIOD div 2"
    using assms h by (intro mod_pos_pos_trivial) (simp_all add: TICKS_PERIOD_def)
  finally show ?thesis by (simp add: ticks_diff_def ticks_add_def)
qed

text \<open>
  The rule that one alert evaluation follows, for every state and tick: the snooze test is
  \<open>ticks_diff now snooze_until < 0\<close>, and it agrees with \<open>now < snooze_until\<close> as long as the
  two ticks are less than half a period apart.
\<close>

lemma check_glucose_alerts_mode:
  "buzzer_mode (check_glucose_alerts (Some v) now s) =
     (if ticks_diff now (buzzer_snooze_until s) < 0 then Off
      else if v \<le> 4 then SevereSolid
      else if v \<le> 5 then MildPattern
      else Off)"
  by (simp add: check_glucose_alerts_def SEVERE_LOW_THRESHOLD_def MILD_LOW_THRESHOLD_def)

lemma snoozed_iff_before:
  assumes "- (TICKS_PERIOD div 2) \<le> now - until" and "now - until < TICKS_PERIOD div 2"
  shows "ticks_diff now until < 0 \<longleftrightarrow> now < until"
  using ticks_diff_near[OF assms] by simp

text \<open>
  Claim C3 fails on the code. A device that has been up for \<open>2^29\<close> ms (about 6.2 days)
  and whose stop button was never pressed still has \<open>buzzer_snooze_until = 0\<close>; the tick
  536870912 is not below 0, yet \<open>ticks_diff\<close> folds the distance to \<open>-2^29\<close>, the
  evaluation takes the device for snoozed, and a reading of 3.5 leaves the mode off
  instead of setting the severe alert. The actuator then holds the buzzer silent.
\<close>

theorem severe_low_suppressed_after_half_period:
  "\<not> (536870912 < buzzer_snooze_until (initial_alert_state 0))
   \<and> ticks_diff 536870912 (buzzer_snooze_until (initial_alert_state 0)) = - 536870912
   \<and> buzzer_mode (check_glucose_alerts (Some (7 / 2)) 536870912 (initial_alert_state 0)) = Off
   \<and> buzzer_driver_action 536870912
        (check_glucose_alerts (Some (7 / 2)) 536870912 (initial_alert_state 0)) = HoldSilent"
  by (simp add: check_glucose_alerts_def initial_alert_state_def ticks_diff_def TICKS_PERIOD_def
      buzzer_driver_action_def)

subsection \<open>The manual stop\<close>

text \<open>
  What a stop press changes: nothing while no alert is active; otherwise the pin goes
  to its silent level, the mode to off, the snooze end to ten minutes ahead of \<open>now\<close> on
  the tick clock, and the cooldown clock to \<open>now\<close>.
\<close>

lemma request_buzzer_stop_effect:
  "(buzzer_mode s = Off \<longrightarrow> request_buzzer_stop now s = s)
   \<and> (buzzer_mode s \<noteq> Off \<longrightarrow>
        buz (request_buzzer_stop now s) = 1
        \<and> buzzer_mode (request_buzzer_stop now s) = Off
        \<and> buzzer_snooze_until (request_buzzer_stop now s) = ticks_add now (10 * 60 * 1000)
        \<and> ticks_diff (buzzer_snooze_until (request_buzzer_stop now s)) now = 10 * 60 * 1000
        \<and> last_mild_beep_time (request_buzzer_stop now s) = now)"
proof -
  have "ticks_diff (ticks_add now BUZZER_SNOOZE_MS) now = BUZZER_SNOOZE_MS"
    by (rule ticks_add_ahead) (simp_all add: BUZZER_SNOOZE_MS_def TICKS_PERIOD_def)
  then show ?thesis by (simp add: request_buzzer_stop_def BUZZER_SNOOZE_MS_def)
qed

text \<open>
  Claim C6 fails on the code in its last part. The press at tick 1000 during a mild alert
  sets the snooze end to 601000 and the cooldown clock to 1000. The cooldown is as long as
  the snooze and both tests admit equality, so at tick 601000 the snooze is over, an
  evaluation of the reading 4.5 sets the mild mode again, and the actuator finds the
  pattern due at that same tick: resetting the cooldown clock does not keep the pattern
  from sounding at snooze expiry.
\<close>

theorem mild_pattern_due_at_snooze_expiry:
  "request_buzzer_stop 1000
       \<lparr> buz = 0, buzzer_mode = MildPattern, buzzer_snooze_until = 0, last_mild_beep_time = 0 \<rparr>
     = \<lparr> buz = 1, buzzer_mode = Off, buzzer_snooze_until = 601000, last_mild_beep_time = 1000 \<rparr>
   \<and> check_glucose_alerts (Some (9 / 2)) 601000
       \<lparr> buz = 1, buzzer_mode = Off, buzzer_snooze_until = 601000, last_mild_beep_time = 1000 \<rparr>
     = \<lparr> buz = 1, buzzer_mode = MildPattern, buzzer_snooze_until = 601000,
         last_mild_beep_time = 1000 \<rparr>
   \<and> buzzer_driver_action 601000
       \<lparr> buz = 1, buzzer_mode = MildPattern, buzzer_snooze_until = 601000,
         last_mild_beep_time = 1000 \<rparr>
     = PlayPattern"
  by (simp add: request_buzzer_stop_def check_glucose_alerts_def buzzer_driver_action_def
      ticks_add_def ticks_diff_def TICKS_PERIOD_def BUZZER_SNOOZE_MS_def MILD_COOLDOWN_MS_def
      SEVERE_LOW_THRESHOLD_def MILD_LOW_THRESHOLD_def)

subsection \<open>The receive cap\<close>

lemma recv_loop_cap:
  "recv_loop p cap i buf = Some r \<Longrightarrow> length buf \<le> cap \<Longrightarrow> length r \<le> cap"
proof (induction p cap i buf rule: recv_loop.induct)
  case (1 p cap i buf)
  show ?case
  proof (cases "fst (p i) > RECV_BUDGET_MS")
    case True
    with "1.prems" show ?thesis by (simp add: recv_loop.simps)
  next
    case nb: False
    show ?thesis
    proof (cases "snd (p i)")
      case RecvError
      with nb "1.prems" show ?thesis by (simp add: recv_loop.simps)
    next
      case (Data chunk)
      show ?thesis
      proof (cases "chunk = []")
        case True
        with nb Data "1.prems" show ?thesis by (simp add: recv_loop.simps)
      next
        case ne: False
        show ?thesis
        proof (cases "length buf + length chunk > cap")
          case True
          with nb Data ne "1.prems" show ?thesis
            by (subst (asm) recv_loop.simps) (auto simp: Let_def split: if_splits)
        next
          case False
          with nb Data ne "1.prems"(1) have r: "recv_loop p cap (i + 1) (buf @ chunk) = Some r"
            by (subst (asm) recv_loop.simps) simp
          from False have "length (buf @ chunk) \<le> cap" by simp
          from "1.IH"[OF nb Data ne False r this] show ?thesis .
        qed
      qed
    qed
  qed
qed

lemma recv_loop_overflow:
  assumes "fst (p i) \<le> RECV_BUDGET_MS" and "snd (p i) = Data chunk"
    and "length buf \<le> cap" and "cap < length buf + length chunk"
  shows "recv_loop p cap i buf = Some (buf @ take (cap - length buf) chunk)"
proof -
  have ne: "chunk \<noteq> []" using assms(3,4) by auto
  have nb: "\<not> fst (p i) > RECV_BUDGET_MS" using assms(1) by simp
  show ?thesis
  proof (cases "length buf = cap")
    case True
    then show ?thesis using nb ne assms by (subst recv_loop.simps) (simp add: Let_def)
  next
    case False
    then have "int cap - int (length buf) > 0" using assms(3) by simp
    moreover have "nat (int cap - int (length buf)) = cap - length buf" by simp
    ultimately show ?thesis using nb ne assms by (subst recv_loop.simps) (simp add: Let_def)
  qed
qed

lemma recv_loop_accept:
  assumes "fst (p i) \<le> RECV_BUDGET_MS" and "snd (p i) = Data chunk"
    and "chunk \<noteq> []" and "length buf + length chunk \<le> cap"
  shows "recv_loop p cap i buf = recv_loop p cap (i + 1) (buf @ chunk)"
  using assms by (subst recv_loop.simps) simp

lemma recv_loop_stream:
  assumes "\<forall>k<length cs. fst (p (i + k)) \<le> RECV_BUDGET_MS \<and> snd (p (i + k)) = Data (cs ! k)"
    and "[] \<notin> set cs"
    and "length buf \<le> cap"
    and "cap < length buf + length (concat cs)"
  shows "recv_loop p cap i buf = Some (take cap (buf @ concat cs))"
  using assms
proof (induction cs arbitrary: i buf)
  case Nil
  then show ?case by simp
next
  case (Cons c cs)
  from Cons.prems(1) have p0: "fst (p i) \<le> RECV_BUDGET_MS" "snd (p i) = Data c"
    by (metis add.right_neutral length_greater_0_conv list.distinct(1) nth_Cons_0)+
  from Cons.prems(2) have cne: "c \<noteq> []" and csne: "[] \<notin> set cs" by auto
  show ?case
  proof (cases "cap < length buf + length c")
    case True
    have "take cap (buf @ concat (c # cs)) = buf @ take (cap - length buf) c"
      using True Cons.prems(3) by simp
    moreover have "recv_loop p cap i buf = Some (buf @ take (cap - length buf) c)"
      using p0 Cons.prems(3) True by (rule recv_loop_overflow[where p=p and i=i])
    ultimately show ?thesis by simp
  next
    case False
    then have le: "length buf + length c \<le> cap" by simp
    have step: "recv_loop p cap i buf = recv_loop p cap (i + 1) (buf @ c)"
      using p0 cne le by (rule recv_loop_accept[where p=p and i=i])
    have a1: "\<forall>k<length cs. fst (p (i + 1 + k)) \<le> RECV_BUDGET_MS
                \<and> snd (p (i + 1 + k)) = Data (cs ! k)"
    proof (intro allI impI)
      fix k assume "k < length cs"
      then have "Suc k < length (c # cs)" by simp
      with Cons.prems(1) have "fst (p (i + Suc k)) \<le> RECV_BUDGET_MS
           \<and> snd (p (i + Suc k)) = Data ((c # cs) ! Suc k)" by blast
      then show "fst (p (i + 1 + k)) \<le> RECV_BUDGET_MS \<and> snd (p (i + 1 + k)) = Data (cs ! k)"
        by simp
    qed
    have a3: "length (buf @ c) \<le> cap" using le by simp
    have a4: "cap < length (buf @ c) + length (concat cs)" using Cons.prems(4) by simp
    from Cons.IH[OF a1 csne a3 a4] step show ?thesis by simp
  qed
qed

lemma startswith_take:
  "startswith (take n s) key \<Longrightarrow> startswith s key"
  by (metis startswith_def take_take min.absorb1 length_take min.cobounded1 min.cobounded2 nat_le_linear take_all)


lemma find_at_take:
  "find_at key s i = Some k \<Longrightarrow> (k - i) + length key \<le> n \<Longrightarrow> find_at key (take n s) i = Some k"
proof (induction s arbitrary: i n)
  case Nil
  then show ?case by (simp split: if_splits)
next
  case (Cons c cs)
  show ?case
  proof (cases "startswith (c # cs) key")
    case True
    with Cons.prems have k: "k = i" and ln: "length key \<le> n" by simp_all
    show ?thesis
    proof (cases n)
      case 0
      with ln show ?thesis by (simp add: k)
    next
      case (Suc m)
      have "take (length key) (take n (c # cs)) = take (length key) (c # cs)"
        using ln by (simp add: min.absorb1)
      then have "startswith (take n (c # cs)) key" using True by (simp add: startswith_def)
      then show ?thesis using Suc k by simp
    qed
  next
    case False
    with Cons.prems have f: "find_at key cs (Suc i) = Some k" by simp
    from find_at_bounds[OF f] have ki: "Suc i \<le> k" by simp
    with Cons.prems(2) obtain m where n: "n = Suc m" by (cases n) auto
    have "(k - Suc i) + length key \<le> m" using Cons.prems(2) ki n by simp
    from Cons.IH[OF f this] have ih: "find_at key (take m cs) (Suc i) = Some k" .
    have "\<not> startswith (take n (c # cs)) key" using False startswith_take by blast
    then show ?thesis using ih n by simp
  qed
qed

lemma str_find_take:
  assumes "str_find s key 0 = Some sep" and "sep + length key \<le> n"
  shows "str_find (take n s) key 0 = Some sep"
  using assms find_at_take[of key s 0 sep n] by (simp add: str_find_def)

lemma split_response_body_le:
  "split_response dec max_body raw = (st, h, Some body) \<Longrightarrow> length body \<le> max_body"
  by (auto simp: split_response_def no_response_def Let_def split: option.splits)

lemma split_response_truncated:
  assumes "str_find stream (CRLF @ CRLF) 0 = Some sep" and "sep + 4 \<le> n"
  shows "split_response dec max_body (take n stream) =
           (parse_status (dec (take sep stream)),
            Some (parse_headers (dec (take sep stream))),
            Some (take max_body (drop (sep + 4) (take n stream))))"
proof -
  have l: "length (CRLF @ CRLF) = 4" by (simp add: CRLF_def)
  have f: "str_find (take n stream) (CRLF @ CRLF) 0 = Some sep"
    using assms by (intro str_find_take) (simp_all add: CRLF_def)
  have "take sep (take n stream) = take sep stream" using assms(2) by (simp add: min.absorb1)
  then show ?thesis by (simp add: split_response_def f Let_def)
qed


text \<open>
  Claim C8. With \<open>cap\<close> the byte cap of the loop: the buffer never grows beyond \<open>cap\<close>; the
  round whose chunk would exceed the cap takes the bytes that still fit and ends the loop
  with exactly \<open>cap\<close> bytes, whatever the peer would send next. For the cap
  \<open>2048 + 1024\<close> of a fetch: when the chunks \<open>cs\<close> that the loop receives within its time
  budget hold more than the cap, the buffer is the first \<open>2048 + 1024\<close> bytes of the
  stream, and \<^verbatim>\<open>_one_request\<close> parses exactly these. The body handed back is at most
  2048 bytes long, and a stream whose first blank line ends within the cap is split at
  that blank line after truncation just as before: status and headers come from the text
  before it and the body from the bytes behind it.
\<close>

theorem recv_stops_at_cap:
  "(length buf \<le> cap \<and> recv_loop p cap i buf = Some r \<longrightarrow> length r \<le> cap)
   \<and> (fst (p i) \<le> RECV_BUDGET_MS \<and> snd (p i) = Data chunk \<and> length buf \<le> cap
        \<and> cap < length buf + length chunk \<longrightarrow>
        recv_loop p cap i buf = Some (buf @ take (cap - length buf) chunk)
        \<and> length (buf @ take (cap - length buf) chunk) = cap)
   \<and> ((\<forall>k<length cs. fst (q k) \<le> RECV_BUDGET_MS \<and> snd (q k) = Data (cs ! k))
        \<and> [] \<notin> set cs \<and> 2048 + 1024 < length (concat cs) \<longrightarrow>
        recv_loop q (2048 + 1024) 0 [] = Some (take (2048 + 1024) (concat cs))
        \<and> length (take (2048 + 1024) (concat cs)) = 2048 + 1024
        \<and> (parse_url u = Some (scheme, host, port, path)
             \<and> connect_ok (nt (scheme, host, port, path))
             \<and> tls_ok (nt (scheme, host, port, path))
             \<and> send_ok (nt (scheme, host, port, path))
             \<and> peer_of (nt (scheme, host, port, path)) = q \<longrightarrow>
             one_request dec nt u 2048
               = Inr (split_response dec 2048 (take (2048 + 1024) (concat cs)))))
   \<and> (split_response dec 2048 raw = (st, h, Some body) \<longrightarrow> length body \<le> 2048)
   \<and> (str_find stream (CRLF @ CRLF) 0 = Some sep \<and> sep + 4 \<le> 2048 + 1024 \<longrightarrow>
        split_response dec 2048 (take (2048 + 1024) stream) =
          (parse_status (dec (take sep stream)),
           Some (parse_headers (dec (take sep stream))),
           Some (take 2048 (drop (sep + 4) (take (2048 + 1024) stream)))))"
proof (intro conjI impI)
  assume "length buf \<le> cap \<and> recv_loop p cap i buf = Some r"
  then show "length r \<le> cap" using recv_loop_cap by blast
next
  assume h: "fst (p i) \<le> RECV_BUDGET_MS \<and> snd (p i) = Data chunk \<and> length buf \<le> cap
        \<and> cap < length buf + length chunk"
  then show "recv_loop p cap i buf = Some (buf @ take (cap - length buf) chunk)"
    by (intro recv_loop_overflow[where p=p and i=i]) simp_all
  from h show "length (buf @ take (cap - length buf) chunk) = cap" by auto
next
  assume h: "(\<forall>k<length cs. fst (q k) \<le> RECV_BUDGET_MS \<and> snd (q k) = Data (cs ! k))
        \<and> [] \<notin> set cs \<and> 2048 + 1024 < length (concat cs)"
  then have a: "\<forall>k<length cs. fst (q (0 + k)) \<le> RECV_BUDGET_MS \<and> snd (q (0 + k)) = Data (cs ! k)"
    by simp
  have "recv_loop q (2048 + 1024) 0 [] = Some (take (2048 + 1024) ([] @ concat cs))"
    using a h by (intro recv_loop_stream) simp_all
  then show r: "recv_loop q (2048 + 1024) 0 [] = Some (take (2048 + 1024) (concat cs))" by simp
  from h show "length (take (2048 + 1024) (concat cs)) = 2048 + 1024" by simp
  assume n: "parse_url u = Some (scheme, host, port, path)
             \<and> connect_ok (nt (scheme, host, port, path))
             \<and> tls_ok (nt (scheme, host, port, path))
             \<and> send_ok (nt (scheme, host, port, path))
             \<and> peer_of (nt (scheme, host, port, path)) = q"
  then show "one_request dec nt u 2048
               = Inr (split_response dec 2048 (take (2048 + 1024) (concat cs)))"
    using r by (simp add: one_request_def)
next
  assume "split_response dec 2048 raw = (st, h, Some body)"
  then show "length body \<le> 2048" by (rule split_response_body_le)
next
  assume "str_find stream (CRLF @ CRLF) 0 = Some sep \<and> sep + 4 \<le> 2048 + 1024"
  then show "split_response dec 2048 (take (2048 + 1024) stream) =
          (parse_status (dec (take sep stream)),
           Some (parse_headers (dec (take sep stream))),
           Some (take 2048 (drop (sep + 4) (take (2048 + 1024) stream))))"
    by (intro split_response_truncated) simp_all
qed

lemma concat_replicate_replicate: "concat (replicate n (replicate m x)) = replicate (n * m) x"
  by (induction n) (simp_all add: replicate_add)

theorem recv_stops_at_cap_witness:
  "recv_loop (\<lambda>k. (0, Data ''cdef'')) 3 0 ''ab'' = Some ''abc''
   \<and> length (''ab'' @ take (3 - length ''ab'') ''cdef'') = 3
   \<and> length (concat ((''HTTP/1.1 200 OK'' @ CRLF @ CRLF) # replicate 13 (replicate 256 (CHR ''7'')))) = 3347
   \<and> recv_loop (\<lambda>k. (0, Data (if k = 0 then ''HTTP/1.1 200 OK'' @ CRLF @ CRLF
                                 else replicate 256 (CHR ''7''))))
        (2048 + 1024) 0 []
       = Some ((''HTTP/1.1 200 OK'' @ CRLF @ CRLF) @ replicate 3053 (CHR ''7''))
   \<and> one_request id
        (\<lambda>parts. \<lparr> connect_ok = True, tls_ok = True, send_ok = True,
                    peer_of = (\<lambda>k. (0, Data (if k = 0 then ''HTTP/1.1 200 OK'' @ CRLF @ CRLF
                                               else replicate 256 (CHR ''7'')))) \<rparr>)
        ''http://ns.example.org/x'' 2048
       = Inr (Some 200, Some Map.empty, Some (replicate 2048 (CHR ''7'')))"
proof -
  define hd0 :: string where "hd0 = ''HTTP/1.1 200 OK'' @ CRLF @ CRLF"
  define blk :: string where "blk = replicate 256 (CHR ''7'')"
  define cs where "cs = hd0 # replicate 13 blk"
  define q :: peer where "q = (\<lambda>k. (0, Data (if k = 0 then hd0 else blk)))"
  define nt :: "url_parts \<Rightarrow> conn"
    where "nt = (\<lambda>parts. \<lparr> connect_ok = True, tls_ok = True, send_ok = True, peer_of = q \<rparr>)"
  define stream where "stream = hd0 @ replicate 3328 (CHR ''7'')"
  define raw where "raw = hd0 @ replicate 3053 (CHR ''7'')"
  have l0: "length hd0 = 19" by (simp add: hd0_def CRLF_def)
  have cc: "concat cs = stream"
    by (simp add: cs_def blk_def stream_def concat_replicate_replicate)
  have tk: "take (2048 + 1024) stream = raw" by (simp add: stream_def raw_def l0)
  have len: "length (concat cs) = 3347" by (simp add: cc stream_def l0)
  have ne: "[] \<notin> set cs" by (auto simp: cs_def hd0_def blk_def)
  have qk: "\<forall>k<length cs. fst (q k) \<le> RECV_BUDGET_MS \<and> snd (q k) = Data (cs ! k)"
    by (auto simp: q_def cs_def RECV_BUDGET_MS_def nth_Cons')
  have big: "2048 + 1024 < length (concat cs)" by (simp add: len)
  have pu: "parse_url ''http://ns.example.org/x'' = Some (''http'', ''ns.example.org'', 80, ''/x'')"
    by code_simp
  have sf: "str_find stream (CRLF @ CRLF) 0 = Some 15"
    by (simp add: stream_def hd0_def CRLF_def str_find_def startswith_def)
  have hd15: "take 15 stream = ''HTTP/1.1 200 OK''" by (simp add: stream_def hd0_def)
  have ps: "parse_status ''HTTP/1.1 200 OK'' = Some 200" by code_simp
  have ph: "parse_headers ''HTTP/1.1 200 OK'' = Map.empty"
    by (simp add: parse_headers_def str_split_def split_acc.simps CRLF_def startswith_def)
  have bd: "take 2048 (drop (15 + 4) raw) = replicate 2048 (CHR ''7'')"
    by (simp add: raw_def l0)
  have p1: "fst ((\<lambda>k::nat. (0::int, Data ''cdef'')) 0) \<le> RECV_BUDGET_MS
            \<and> snd ((\<lambda>k::nat. (0::int, Data ''cdef'')) 0) = Data ''cdef''
            \<and> length ''ab'' \<le> 3 \<and> 3 < length ''ab'' + length ''cdef''"
    by (simp add: RECV_BUDGET_MS_def)
  note t = recv_stops_at_cap[where buf="''ab''" and cap=3 and p="\<lambda>k. (0, Data ''cdef'')"
      and i=0 and r="''abc''" and chunk="''cdef''" and cs=cs and q=q
      and u="''http://ns.example.org/x''" and scheme="''http''" and host="''ns.example.org''"
      and port=80 and path="''/x''" and nt=nt and dec=id and raw=raw and st="Some 200"
      and h="Some Map.empty" and body="replicate 2048 (CHR ''7'')" and stream=stream and sep=15]
  from t p1 have a: "recv_loop (\<lambda>k. (0, Data ''cdef'')) 3 0 ''ab''
                       = Some (''ab'' @ take (3 - length ''ab'') ''cdef'')
                     \<and> length (''ab'' @ take (3 - length ''ab'') ''cdef'') = 3" by blast
  then have a1: "recv_loop (\<lambda>k. (0, Data ''cdef'')) 3 0 ''ab'' = Some ''abc''" by simp
  from a have a2: "length (''ab'' @ take (3 - length ''ab'') ''cdef'') = 3" by blast
  from t qk ne big have c1: "recv_loop q (2048 + 1024) 0 [] = Some (take (2048 + 1024) (concat cs))"
    by blast
  then have c2: "recv_loop q (2048 + 1024) 0 [] = Some raw" by (simp only: cc tk)
  have nth: "parse_url ''http://ns.example.org/x'' = Some (''http'', ''ns.example.org'', 80, ''/x'')
             \<and> connect_ok (nt (''http'', ''ns.example.org'', 80, ''/x''))
             \<and> tls_ok (nt (''http'', ''ns.example.org'', 80, ''/x''))
             \<and> send_ok (nt (''http'', ''ns.example.org'', 80, ''/x''))
             \<and> peer_of (nt (''http'', ''ns.example.org'', 80, ''/x'')) = q"
    using pu by (simp add: nt_def)
  from t qk ne big nth
  have d1: "one_request id nt ''http://ns.example.org/x'' 2048
              = Inr (split_response id 2048 (take (2048 + 1024) (concat cs)))" by blast
  from t sf have e1: "split_response id 2048 (take (2048 + 1024) stream) =
          (parse_status (id (take 15 stream)),
           Some (parse_headers (id (take 15 stream))),
           Some (take 2048 (drop (15 + 4) (take (2048 + 1024) stream))))" by simp
  then have e2: "split_response id 2048 raw = (Some 200, Some Map.empty, Some (replicate 2048 (CHR ''7'')))"
    by (simp only: tk hd15 id_apply ps ph bd)
  from d1 have d2: "one_request id nt ''http://ns.example.org/x'' 2048
              = Inr (Some 200, Some Map.empty, Some (replicate 2048 (CHR ''7'')))"
    by (simp only: cc tk e2)
  from a1 a2 len c2 d2 show ?thesis
    unfolding cs_def nt_def q_def raw_def hd0_def blk_def by (intro conjI)
qed


subsection \<open>Redirects and failures of a fetch\<close>

lemma fetch_gated:
  assumes "wlan e = LinkUp" and "NS_URL e \<noteq> []" and "MIN_FREE \<le> mem_free e"
  shows "fetch_ns_text e =
     (case one_request (decode e) (net e 0) (request_url e) 2048 of
        Inl err \<Rightarrow> (Inl err, [request_url e])
      | Inr (status, hdrs, body) \<Rightarrow>
          (case status of
             None \<Rightarrow> (Inr None, [request_url e])
           | Some st \<Rightarrow>
               if is_redirect st then
                 (case (case hdrs of None \<Rightarrow> None | Some h \<Rightarrow> h ''location'') of
                    None \<Rightarrow> (Inr None, [request_url e])
                  | Some loc \<Rightarrow>
                      if loc = [] then (Inr None, [request_url e])
                      else
                        (case one_request (decode e) (net e 1) loc 2048 of
                           Inl err \<Rightarrow> (Inl err, [request_url e, loc])
                         | Inr (status2, hdrs2, body2) \<Rightarrow>
                             (case status2 of
                                None \<Rightarrow> (Inr None, [request_url e, loc])
                              | Some st2 \<Rightarrow>
                                  (Inr (finish (decode e) st2 body2), [request_url e, loc]))))
               else (Inr (finish (decode e) st body), [request_url e])))"
  using assms by (simp add: fetch_ns_text_def Let_def)

lemma fetch_trace_le2: "length (snd (fetch_ns_text e)) \<le> 2"
  by (auto simp: fetch_ns_text_def Let_def split: sum.splits option.splits prod.splits)

lemma redirect_not_200: "is_redirect st \<Longrightarrow> st \<noteq> 200"
  by (auto simp: is_redirect_def)

text \<open>
  Claim C7. Let the gates of the fetch be open and the first request give a status \<open>st\<close>.
  Never are more than two requests issued. If \<open>st\<close> is one of 301, 302, 303, 307, 308 and
  the headers hold a non-empty \<^verbatim>\<open>location\<close>, exactly one more request is issued, on that
  value, and its outcome is final: any status but 200, a redirect included, gives null.
  A redirect status without a \<^verbatim>\<open>location\<close> (or with an empty one, which the code takes for
  missing) gives null after the first request, and so does any other status but 200.
\<close>

theorem one_redirect_hop:
  assumes "wlan e = LinkUp" and "NS_URL e \<noteq> []" and "MIN_FREE \<le> mem_free e"
    and "one_request (decode e) (net e 0) (request_url e) 2048 = Inr (Some st, hdrs, body)"
  shows "length (snd (fetch_ns_text e)) \<le> 2
    \<and> (is_redirect st \<and> hdrs = Some h \<and> h ''location'' = Some loc \<and> loc \<noteq> [] \<longrightarrow>
         snd (fetch_ns_text e) = [request_url e, loc]
         \<and> (one_request (decode e) (net e 1) loc 2048 = Inr (Some st2, hdrs2, body2) \<longrightarrow>
              fst (fetch_ns_text e) = Inr (finish (decode e) st2 body2)
              \<and> (st2 \<noteq> 200 \<longrightarrow> fst (fetch_ns_text e) = Inr None)
              \<and> (is_redirect st2 \<longrightarrow> fst (fetch_ns_text e) = Inr None)))
    \<and> (is_redirect st \<and> (hdrs = None \<or> (\<exists>h. hdrs = Some h \<and> (h ''location'' = None \<or> h ''location'' = Some []))) \<longrightarrow>
         fetch_ns_text e = (Inr None, [request_url e]))
    \<and> (\<not> is_redirect st \<longrightarrow>
         fetch_ns_text e = (Inr (finish (decode e) st body), [request_url e])
         \<and> (st \<noteq> 200 \<longrightarrow> fetch_ns_text e = (Inr None, [request_url e])))"
proof -
  note g = fetch_gated[OF assms(1,2,3)]
  have a: "length (snd (fetch_ns_text e)) \<le> 2" by (rule fetch_trace_le2)
  have b: "is_redirect st \<and> hdrs = Some h \<and> h ''location'' = Some loc \<and> loc \<noteq> [] \<longrightarrow>
         snd (fetch_ns_text e) = [request_url e, loc]
         \<and> (one_request (decode e) (net e 1) loc 2048 = Inr (Some st2, hdrs2, body2) \<longrightarrow>
              fst (fetch_ns_text e) = Inr (finish (decode e) st2 body2)
              \<and> (st2 \<noteq> 200 \<longrightarrow> fst (fetch_ns_text e) = Inr None)
              \<and> (is_redirect st2 \<longrightarrow> fst (fetch_ns_text e) = Inr None))"
    using redirect_not_200[of st2]
    by (auto simp: g assms(4) finish_def split: sum.splits option.splits prod.splits)
  have c: "is_redirect st \<and> (hdrs = None \<or> (\<exists>h. hdrs = Some h \<and> (h ''location'' = None \<or> h ''location'' = Some []))) \<longrightarrow>
         fetch_ns_text e = (Inr None, [request_url e])"
    by (auto simp: g assms(4))
  have d: "\<not> is_redirect st \<longrightarrow>
         fetch_ns_text e = (Inr (finish (decode e) st body), [request_url e])
         \<and> (st \<noteq> 200 \<longrightarrow> fetch_ns_text e = (Inr None, [request_url e]))"
    by (auto simp: g assms(4) finish_def)
  from a b c d show ?thesis by (intro conjI)
qed

lemma recv_loop_single:
  assumes "r \<noteq> []" and "length r \<le> cap"
  shows "recv_loop (single_peer r) cap 0 [] = Some r"
proof -
  have "recv_loop (single_peer r) cap 0 [] = recv_loop (single_peer r) cap (0 + 1) ([] @ r)"
    using assms by (intro recv_loop_accept[where p="single_peer r" and i=0])
      (simp_all add: single_peer_def RECV_BUDGET_MS_def)
  also have "\<dots> = Some r"
    by (subst recv_loop.simps) (simp add: single_peer_def RECV_BUDGET_MS_def)
  finally show ?thesis .
qed




lemma one_request_single:
  assumes "parse_url u = Some parts" and "r \<noteq> []" and "length r \<le> mb + 1024"
  shows "one_request dec (\<lambda>p. open_conn (single_peer r)) u mb = Inr (split_response dec mb r)"
proof -
  obtain scheme host port path where p: "parts = (scheme, host, port, path)" by (cases parts) auto
  have "recv_loop (single_peer r) (mb + 1024) 0 [] = Some r"
    using assms(2,3) by (rule recv_loop_single)
  then show ?thesis using assms(1) p by (simp add: one_request_def open_conn_def)
qed

lemma split_response_at:
  "str_find raw (CRLF @ CRLF) 0 = Some sep \<Longrightarrow>
   split_response dec mb raw =
     (parse_status (dec (take sep raw)), Some (parse_headers (dec (take sep raw))),
      Some (take mb (drop (sep + 4) raw)))"
  by (simp add: split_response_def Let_def)

theorem one_redirect_hop_witness:
  "wlan example_env = LinkUp \<and> NS_URL example_env \<noteq> [] \<and> MIN_FREE \<le> mem_free example_env
   \<and> is_redirect 302
   \<and> fetch_ns_text example_env
       = (Inr (Some ''[{}]''), [''http://a.example/e?count=2'', ''http://b.example/y''])
   \<and> \<not> is_redirect 404
   \<and> fetch_ns_text (example_env\<lparr> net := (\<lambda>k parts. open_conn (single_peer
          (''HTTP/1.1 404 Not Found'' @ CRLF @ CRLF @ ''gone''))) \<rparr>)
       = (Inr None, [''http://a.example/e?count=2''])
   \<and> fetch_ns_text (example_env\<lparr> net := (\<lambda>k parts. open_conn (single_peer
          (''HTTP/1.1 301 Moved'' @ CRLF @ ''Server: x'' @ CRLF @ CRLF))) \<rparr>)
       = (Inr None, [''http://a.example/e?count=2''])"
proof -
  define h1 where "h1 = parse_headers (''HTTP/1.1 302 Found'' @ CRLF @ ''Location: http://b.example/y'')"
  define h2 where "h2 = parse_headers ''HTTP/1.1 200 OK''"
  have g1: "wlan example_env = LinkUp" by (simp add: example_env_def)
  have g2: "NS_URL example_env \<noteq> []" by (simp add: example_env_def)
  have g3: "MIN_FREE \<le> mem_free example_env" by (simp add: example_env_def MIN_FREE_def)
  have ru: "request_url example_env = ''http://a.example/e?count=2''" by code_simp
  have dc: "decode example_env = id" by (simp add: example_env_def)
  have n0: "net example_env 0 = (\<lambda>p. open_conn (single_peer found_302))"
    by (simp add: example_env_def)
  have n1: "net example_env 1 = (\<lambda>p. open_conn (single_peer ok_200))"
    by (simp add: example_env_def)
  have pu: "parse_url ''http://a.example/e?count=2'' = Some (''http'', ''a.example'', 80, ''/e?count=2'')"
    by code_simp
  have pl: "parse_url ''http://b.example/y'' = Some (''http'', ''b.example'', 80, ''/y'')"
    by code_simp
  have s1: "split_response id 2048 found_302 = (Some 302, Some h1, Some [])"
  proof -
    have sf: "str_find found_302 (CRLF @ CRLF) 0 = Some 48"
      by (simp add: found_302_def CRLF_def str_find_def startswith_def)
    have hd: "take 48 found_302 = ''HTTP/1.1 302 Found'' @ CRLF @ ''Location: http://b.example/y''"
      by (simp add: found_302_def CRLF_def)
    have bd: "take 2048 (drop (48 + 4) found_302) = []" by (simp add: found_302_def CRLF_def)
    have ps: "parse_status (''HTTP/1.1 302 Found'' @ CRLF @ ''Location: http://b.example/y'') = Some 302"
      by code_simp
    show ?thesis
      by (simp only: split_response_def sf option.case Let_def hd bd id_apply ps h1_def)
  qed
  have s2: "split_response id 2048 ok_200 = (Some 200, Some h2, Some ''[{}]'')"
  proof -
    have sf: "str_find ok_200 (CRLF @ CRLF) 0 = Some 15"
      by (simp add: ok_200_def CRLF_def str_find_def startswith_def)
    have hd: "take 15 ok_200 = ''HTTP/1.1 200 OK''" by (simp add: ok_200_def CRLF_def)
    have bd: "take 2048 (drop (15 + 4) ok_200) = ''[{}]''" by (simp add: ok_200_def CRLF_def)
    have ps: "parse_status ''HTTP/1.1 200 OK'' = Some 200" by code_simp
    show ?thesis
      by (simp only: split_response_def sf option.case Let_def hd bd id_apply ps h2_def)
  qed
  have r1: "one_request (decode example_env) (net example_env 0) (request_url example_env) 2048
              = Inr (Some 302, Some h1, Some [])"
    unfolding dc n0 ru s1[symmetric]
    by (rule one_request_single[OF pu]) (simp_all add: found_302_def CRLF_def)
  have r2: "one_request (decode example_env) (net example_env 1) ''http://b.example/y'' 2048
              = Inr (Some 200, Some h2, Some ''[{}]'')"
    unfolding dc n1 s2[symmetric]
    by (rule one_request_single[OF pl]) (simp_all add: ok_200_def CRLF_def)
  have lc: "h1 ''location'' = Some ''http://b.example/y''" unfolding h1_def by code_simp
  have rd: "is_redirect 302" by (simp add: is_redirect_def)
  note t = one_redirect_hop[OF g1 g2 g3 r1, where h=h1 and loc="''http://b.example/y''"
      and ?st2.0=200 and ?hdrs2.0="Some h2" and ?body2.0="Some ''[{}]''"]
  from t rd lc r2 have a: "snd (fetch_ns_text example_env) = [request_url example_env, ''http://b.example/y'']"
    and b: "fst (fetch_ns_text example_env) = Inr (finish (decode example_env) 200 (Some ''[{}]''))"
    by auto
  have f1: "fetch_ns_text example_env
       = (Inr (Some ''[{}]''), [''http://a.example/e?count=2'', ''http://b.example/y''])"
    using a b by (simp add: prod_eq_iff ru dc finish_def)
  \<comment> \<open>a terminal status other than 200\<close>
  define e4 where "e4 = example_env\<lparr> net := (\<lambda>k parts. open_conn (single_peer
          (''HTTP/1.1 404 Not Found'' @ CRLF @ CRLF @ ''gone''))) \<rparr>"
  have g4: "wlan e4 = LinkUp" "NS_URL e4 \<noteq> []" "MIN_FREE \<le> mem_free e4"
    by (simp_all add: e4_def example_env_def MIN_FREE_def)
  have ru4: "request_url e4 = ''http://a.example/e?count=2''" unfolding e4_def by code_simp
  define raw4 where "raw4 = ''HTTP/1.1 404 Not Found'' @ CRLF @ CRLF @ ''gone''"
  have dc4: "decode e4 = id" and n4: "net e4 0 = (\<lambda>p. open_conn (single_peer raw4))"
    by (simp_all add: e4_def example_env_def raw4_def)
  have s4: "split_response id 2048 raw4
              = (Some 404, Some (parse_headers ''HTTP/1.1 404 Not Found''), Some ''gone'')"
  proof -
    have sf: "str_find raw4 (CRLF @ CRLF) 0 = Some 22"
      by (simp add: raw4_def CRLF_def str_find_def startswith_def)
    have hd: "take 22 raw4 = ''HTTP/1.1 404 Not Found''" by (simp add: raw4_def CRLF_def)
    have bd: "take 2048 (drop (22 + 4) raw4) = ''gone''" by (simp add: raw4_def CRLF_def)
    have ps: "parse_status ''HTTP/1.1 404 Not Found'' = Some 404" by code_simp
    show ?thesis by (simp only: split_response_at[OF sf] hd bd id_apply ps)
  qed
  have r4: "one_request (decode e4) (net e4 0) (request_url e4) 2048
              = Inr (Some 404, Some (parse_headers ''HTTP/1.1 404 Not Found''), Some ''gone'')"
    unfolding dc4 n4 ru4 s4[symmetric]
    by (rule one_request_single[OF pu]) (simp_all add: raw4_def CRLF_def)
  have nr: "\<not> is_redirect 404" by (simp add: is_redirect_def)
  have n200: "(404::int) \<noteq> 200" by simp
  from one_redirect_hop[OF g4 r4] nr n200
  have "fetch_ns_text e4 = (Inr None, [request_url e4])" by blast
  then have f4: "fetch_ns_text e4 = (Inr None, [''http://a.example/e?count=2''])"
    by (simp only: ru4)
  \<comment> \<open>a redirect without a Location header\<close>
  define e5 where "e5 = example_env\<lparr> net := (\<lambda>k parts. open_conn (single_peer
          (''HTTP/1.1 301 Moved'' @ CRLF @ ''Server: x'' @ CRLF @ CRLF))) \<rparr>"
  define h5 where "h5 = parse_headers (''HTTP/1.1 301 Moved'' @ CRLF @ ''Server: x'')"
  have g5: "wlan e5 = LinkUp" "NS_URL e5 \<noteq> []" "MIN_FREE \<le> mem_free e5"
    by (simp_all add: e5_def example_env_def MIN_FREE_def)
  have ru5: "request_url e5 = ''http://a.example/e?count=2''" unfolding e5_def by code_simp
  define raw5 where "raw5 = ''HTTP/1.1 301 Moved'' @ CRLF @ ''Server: x'' @ CRLF @ CRLF"
  have dc5: "decode e5 = id" and n5: "net e5 0 = (\<lambda>p. open_conn (single_peer raw5))"
    by (simp_all add: e5_def example_env_def raw5_def)
  have s5: "split_response id 2048 raw5 = (Some 301, Some h5, Some [])"
  proof -
    have sf: "str_find raw5 (CRLF @ CRLF) 0 = Some 29"
      by (simp add: raw5_def CRLF_def str_find_def startswith_def)
    have hd: "take 29 raw5 = ''HTTP/1.1 301 Moved'' @ CRLF @ ''Server: x''"
      by (simp add: raw5_def CRLF_def)
    have bd: "take 2048 (drop (29 + 4) raw5) = []" by (simp add: raw5_def CRLF_def)
    have ps: "parse_status (''HTTP/1.1 301 Moved'' @ CRLF @ ''Server: x'') = Some 301" by code_simp
    show ?thesis by (simp only: split_response_at[OF sf] hd bd id_apply ps h5_def)
  qed
  have r5: "one_request (decode e5) (net e5 0) (request_url e5) 2048
              = Inr (Some 301, Some h5, Some [])"
    unfolding dc5 n5 ru5 s5[symmetric]
    by (rule one_request_single[OF pu]) (simp_all add: raw5_def CRLF_def)
  have l5: "h5 ''location'' = None" unfolding h5_def by code_simp
  have rd5: "is_redirect 301" by (simp add: is_redirect_def)
  from one_redirect_hop[OF g5 r5] rd5 l5
  have "fetch_ns_text e5 = (Inr None, [request_url e5])" by blast
  then have f5: "fetch_ns_text e5 = (Inr None, [''http://a.example/e?count=2''])"
    by (simp only: ru5)
  from g1 g2 g3 rd f1 nr f4 f5 show ?thesis unfolding e4_def e5_def by (intro conjI)
qed













subsection \<open>The render pass\<close>

text \<open>
  A drawing function whose cache entries hold the new value returns at once; in every case
  it leaves the new value in its own entries and the other entries as they are.
\<close>

lemma union_rect_same: "union_rect (Some r) r = r"
  by (cases r) (simp add: Let_def)































end
